theory Spec2Isabelle
  imports Main "HOL-Library.Word"
begin

section \<open>MillisTaskManager: the task list on the heap\<close>

subsection \<open>Data model\<close>

text \<open>
  A pointer to a task node is either \<open>NULL\<close> (\<open>None\<close>) or the address of a node.
  A task function pointer is compared for equality only, so it is an opaque identity.
\<close>

type_synonym addr = nat
type_synonym ptr = "addr option"
type_synonym TaskFunction_t = nat

text \<open>
  Modelled from the spec: the header \<^verbatim>\<open>MillisTaskManager.h\<close>, which declares
  \<^verbatim>\<open>Task_t\<close>, \<^verbatim>\<open>TaskManager_t\<close> and \<^verbatim>\<open>TaskFunction_t\<close>, is not among the sources. The
  records hold exactly the fields that the functions of \<^verbatim>\<open>MillisTaskManager.c\<close> read
  and write (the Task of the spec: \<open>function\<close>, \<open>interval_ms\<close>, \<open>enabled\<close>,
  \<open>last_fire_tick\<close>, \<open>last_cost_ms\<close>, \<open>drift_ms\<close> and the next-task link). \<open>Time\<close>
  receives the \<^verbatim>\<open>uint32_t\<close> argument \<^verbatim>\<open>timeMs\<close>; the other tick fields are taken to be
  32-bit as well.
\<close>

record Task_t =
  Function :: TaskFunction_t
  Time :: "32 word"
  State :: bool
  TimePrev :: "32 word"
  TimeCost :: "32 word"
  TimeError :: "32 word"
  Next :: ptr

record TaskManager_t =
  PriorityEnable :: bool
  Head :: ptr
  Tail :: ptr

text \<open>
  The memory that holds the task nodes: a live node has an entry, \<^verbatim>\<open>free\<close> removes it.
  Dereferencing a pointer whose node is not live (never allocated, or already freed) is
  the fault \<open>InvalidAccess\<close>.
\<close>

type_synonym heap = "addr \<rightharpoonup> Task_t"

datatype fault = InvalidAccess

definition free :: "heap \<Rightarrow> addr \<Rightarrow> heap" where
  "free h a = h(a := None)"

subsection \<open>The functions of MillisTaskManager.c\<close>

text \<open>\<^verbatim>\<open>ManagerCreate\<close>: the manager is received and returned by value.\<close>

definition ManagerCreate :: "TaskManager_t \<Rightarrow> bool \<Rightarrow> TaskManager_t" where
  "ManagerCreate TaskManager priorityEnable =
     TaskManager\<lparr>PriorityEnable := priorityEnable, Head := None, Tail := None\<rparr>"

text \<open>
  \<^verbatim>\<open>ManagerDelete\<close>: the \<^verbatim>\<open>while(1)\<close> loop. One iteration, in the order of the source:
  leave when \<open>now\<close> is \<open>NULL\<close>; remember the node as \<open>now_del\<close>; read \<^verbatim>\<open>now->Next\<close>
  (a fault when the node is not live); free \<open>now_del\<close>. A loop that never leaves has
  the value \<open>None\<close>.
\<close>

partial_function (option) ManagerDelete_loop :: "heap \<Rightarrow> ptr \<Rightarrow> (fault + heap) option" where
  "ManagerDelete_loop h now =
     (case now of
        None \<Rightarrow> Some (Inr h)
      | Some a \<Rightarrow>
          (let now_del = a in
           case h a of
             None \<Rightarrow> Some (Inl InvalidAccess)
           | Some t \<Rightarrow> ManagerDelete_loop (free h now_del) (Next t)))"

definition ManagerDelete :: "heap \<Rightarrow> TaskManager_t \<Rightarrow> (fault + heap) option" where
  "ManagerDelete h TaskManager = ManagerDelete_loop h (Head TaskManager)"

text \<open>\<^verbatim>\<open>TaskFind\<close>: linear scan from \<open>Head\<close> for the first node whose function is \<open>func\<close>.\<close>

partial_function (option) TaskFind_loop ::
  "heap \<Rightarrow> ptr \<Rightarrow> TaskFunction_t \<Rightarrow> (fault + ptr) option" where
  "TaskFind_loop h now func =
     (case now of
        None \<Rightarrow> Some (Inr None)
      | Some a \<Rightarrow>
          (case h a of
             None \<Rightarrow> Some (Inl InvalidAccess)
           | Some t \<Rightarrow>
               if Function t = func then Some (Inr (Some a))
               else TaskFind_loop h (Next t) func))"

definition TaskFind :: "heap \<Rightarrow> TaskManager_t \<Rightarrow> TaskFunction_t \<Rightarrow> (fault + ptr) option" where
  "TaskFind h TaskManager func = TaskFind_loop h (Head TaskManager) func"

text \<open>
  \<^verbatim>\<open>GetPrev\<close>: the node before \<open>task\<close>; \<open>NULL\<close> when \<open>task\<close> is the head or is not in
  the list. The comparison \<^verbatim>\<open>now == task\<close> comes before \<^verbatim>\<open>now->Next\<close> is read.
\<close>

partial_function (option) GetPrev_loop ::
  "heap \<Rightarrow> ptr \<Rightarrow> ptr \<Rightarrow> ptr \<Rightarrow> (fault + ptr) option" where
  "GetPrev_loop h now prev task =
     (case now of
        None \<Rightarrow> Some (Inr None)
      | Some a \<Rightarrow>
          if now = task then Some (Inr prev)
          else (case h a of
                  None \<Rightarrow> Some (Inl InvalidAccess)
                | Some t \<Rightarrow> GetPrev_loop h (Next t) now task))"

definition GetPrev :: "heap \<Rightarrow> TaskManager_t \<Rightarrow> ptr \<Rightarrow> (fault + ptr) option" where
  "GetPrev h TaskManager task = GetPrev_loop h (Head TaskManager) None task"

text \<open>
  \<^verbatim>\<open>TaskRegister\<close>. The manager is a by-value parameter: the body works on its own copy
  of \<open>Head\<close> and \<open>Tail\<close>, and only the node memory is shared with the caller.
  \<open>malloc_result\<close> is what \<^verbatim>\<open>malloc\<close> returns when the body reaches it (\<open>None\<close> for
  \<open>NULL\<close>). \<open>TaskRegister_body\<close> also gives the local copy of the manager as it is when
  the function returns; \<open>TaskRegister\<close> is what the caller gets: the memory and the
  returned pointer.
\<close>

definition TaskRegister_body ::
  "heap \<Rightarrow> TaskManager_t \<Rightarrow> TaskFunction_t \<Rightarrow> 32 word \<Rightarrow> bool \<Rightarrow> ptr
     \<Rightarrow> (fault + heap \<times> TaskManager_t \<times> ptr) option" where
  "TaskRegister_body h TaskManager func timeMs state malloc_result =
     (case TaskFind h TaskManager func of
        None \<Rightarrow> None
      | Some (Inl e) \<Rightarrow> Some (Inl e)
      | Some (Inr (Some a)) \<Rightarrow>
          (case h a of
             None \<Rightarrow> Some (Inl InvalidAccess)
           | Some t \<Rightarrow>
               Some (Inr (h(a \<mapsto> t\<lparr>Time := timeMs, State := state\<rparr>), TaskManager, Some a)))
      | Some (Inr None) \<Rightarrow>
          (case malloc_result of
             None \<Rightarrow> Some (Inr (h, TaskManager, None))
           | Some a \<Rightarrow>
               (let h1 = h(a \<mapsto> \<lparr>Function = func, Time = timeMs, State = state,
                                   TimePrev = 0, TimeCost = 0, TimeError = 0, Next = None\<rparr>)
                in case Head TaskManager of
                     None \<Rightarrow>
                       Some (Inr (h1, TaskManager\<lparr>Head := Some a, Tail := Some a\<rparr>, Some a))
                   | Some _ \<Rightarrow>
                       (case Tail TaskManager of
                          None \<Rightarrow> Some (Inl InvalidAccess)
                        | Some l \<Rightarrow>
                            (case h1 l of
                               None \<Rightarrow> Some (Inl InvalidAccess)
                             | Some last_task \<Rightarrow>
                                 Some (Inr (h1(l \<mapsto> last_task\<lparr>Next := Some a\<rparr>),
                                            TaskManager\<lparr>Tail := Some a\<rparr>, Some a)))))))"

definition TaskRegister ::
  "heap \<Rightarrow> TaskManager_t \<Rightarrow> TaskFunction_t \<Rightarrow> 32 word \<Rightarrow> bool \<Rightarrow> ptr
     \<Rightarrow> (fault + heap \<times> ptr) option" where
  "TaskRegister h TaskManager func timeMs state malloc_result =
     (case TaskRegister_body h TaskManager func timeMs state malloc_result of
        None \<Rightarrow> None
      | Some (Inl e) \<Rightarrow> Some (Inl e)
      | Some (Inr (h', local_copy, task)) \<Rightarrow> Some (Inr (h', task)))"

text \<open>
  \<^verbatim>\<open>TaskLogout\<close>: the body is empty and there is no manager parameter. The memory is
  left as it is and no value is returned (\<open>None\<close> as the result).
\<close>

definition TaskLogout :: "heap \<Rightarrow> TaskFunction_t \<Rightarrow> heap \<times> bool option" where
  "TaskLogout h func = (h, None)"

subsection \<open>The teardown order that the spec describes\<close>

text \<open>
  For comparison, a teardown loop in the order that the spec describes for the source's
  destructor: free the node first, then read the successor link of the node just freed.
\<close>

partial_function (option) teardown_release_then_read ::
  "heap \<Rightarrow> ptr \<Rightarrow> (fault + heap) option" where
  "teardown_release_then_read h now =
     (case now of
        None \<Rightarrow> Some (Inr h)
      | Some a \<Rightarrow>
          (let h' = free h a in
           case h' a of
             None \<Rightarrow> Some (Inl InvalidAccess)
           | Some t \<Rightarrow> teardown_release_then_read h' (Next t)))"

subsection \<open>The dispatcher\<close>

text \<open>
  Modelled from the spec: the dispatcher (\<^verbatim>\<open>run(Registry, now_tick)\<close>, section 4.2 of the
  spec; the \<^verbatim>\<open>Running\<close> function that the header comment of the source mentions) is not
  in \<^verbatim>\<open>MillisTaskManager.c\<close>. It works on the Task of the spec's data model, with
  integer ticks and a signed drift. \<open>Task_of\<close> reads a node of the source as such a
  Task: the tick fields unsigned, the drift signed.
\<close>

record Task =
  task_function :: TaskFunction_t
  interval_ms :: int
  enabled :: bool
  last_fire_tick :: int
  last_cost_ms :: int
  drift_ms :: int

definition Task_of :: "Task_t \<Rightarrow> Task" where
  "Task_of t = \<lparr>task_function = Function t, interval_ms = uint (Time t), enabled = State t,
               last_fire_tick = uint (TimePrev t), last_cost_ms = uint (TimeCost t),
               drift_ms = sint (TimeError t)\<rparr>"

text \<open>
  Modelled from the spec: step 2 of the algorithm, ``compute \<open>elapsed = now_tick -
  last_fire_tick\<close>; the task is due when \<open>elapsed + drift_ms >= interval_ms\<close>''.
\<close>

definition due :: "int \<Rightarrow> Task \<Rightarrow> bool" where
  "due now_tick t =
     (let elapsed = now_tick - last_fire_tick t in elapsed + drift_ms t \<ge> interval_ms t)"

text \<open>Modelled from the spec: \<open>clamp(overrun, -interval_ms, interval_ms)\<close> of step 3.\<close>

definition clamp :: "int \<Rightarrow> int \<Rightarrow> int \<Rightarrow> int" where
  "clamp x lo hi = (if x < lo then lo else if hi < x then hi else x)"

text \<open>
  Modelled from the spec: step 3, the state of a task after it fired. The body of the
  task is opaque; \<open>cost\<close> is the measured duration of its execution.
\<close>

definition fire :: "int \<Rightarrow> int \<Rightarrow> Task \<Rightarrow> Task" where
  "fire cost now_tick t =
     (let elapsed = now_tick - last_fire_tick t;
          overrun = elapsed - interval_ms t
      in t\<lparr>last_cost_ms := cost,
            drift_ms := clamp overrun (- interval_ms t) (interval_ms t),
            last_fire_tick := now_tick\<rparr>)"

text \<open>
  Modelled from the spec: one invocation of \<open>run\<close>. The tasks are visited in sequence
  order; an enabled task that is due fires, any other task is left as it is (step 4).
  The result is the sequence after the pass and the functions that were invoked, in
  the order of their invocation. \<open>cost f now_tick\<close> is the measured duration of the
  body of \<open>f\<close> when it is invoked at \<open>now_tick\<close>.
\<close>

fun run :: "(TaskFunction_t \<Rightarrow> int \<Rightarrow> int) \<Rightarrow> Task list \<Rightarrow> int
              \<Rightarrow> Task list \<times> TaskFunction_t list" where
  "run cost [] now_tick = ([], [])"
| "run cost (t # ts) now_tick =
     (if enabled t \<and> due now_tick t
      then (let t' = fire (cost (task_function t) now_tick) now_tick t;
                (ts', fired) = run cost ts now_tick
            in (t' # ts', task_function t # fired))
      else (let (ts', fired) = run cost ts now_tick
            in (t # ts', fired)))"

subsection \<open>The task sequence of a registry\<close>

text \<open>
  \<open>chain h p xs\<close>: following \<open>Next\<close> from \<open>p\<close> visits exactly the live nodes \<open>xs\<close>
  (address and content, in order) and then reaches \<open>NULL\<close>. A registry whose head has
  such a chain is finite and acyclic.
\<close>

fun chain :: "heap \<Rightarrow> ptr \<Rightarrow> (addr \<times> Task_t) list \<Rightarrow> bool" where
  "chain h p [] = (p = None)"
| "chain h p ((a, t) # xs) = (p = Some a \<and> h a = Some t \<and> chain h (Next t) xs)"

subsection \<open>Example registries\<close>

definition task_one :: Task_t where
  "task_one = \<lparr>Function = 7, Time = 100, State = True,
               TimePrev = 0, TimeCost = 0, TimeError = 0, Next = None\<rparr>"

definition heap_one :: heap where
  "heap_one = [1 \<mapsto> task_one]"

definition manager_one :: TaskManager_t where
  "manager_one = \<lparr>PriorityEnable = False, Head = Some 1, Tail = Some 1\<rparr>"

definition task_two :: Task_t where
  "task_two = \<lparr>Function = 8, Time = 50, State = True,
               TimePrev = 0, TimeCost = 0, TimeError = 0, Next = None\<rparr>"

definition heap_two :: heap where
  "heap_two = [2 \<mapsto> task_two, 1 \<mapsto> task_one\<lparr>Next := Some 2\<rparr>]"

text \<open>The node that \<^verbatim>\<open>TaskRegister\<close> creates for a new function with interval 100, enabled.\<close>

definition node_100 :: "TaskFunction_t \<Rightarrow> Task_t" where
  "node_100 f = \<lparr>Function = f, Time = 100, State = True,
                 TimePrev = 0, TimeCost = 0, TimeError = 0, Next = None\<rparr>"

text \<open>The same task after it fired at tick 100 with measured cost \<open>c\<close>.\<close>

definition fired_at_100 :: "TaskFunction_t \<Rightarrow> int \<Rightarrow> Task" where
  "fired_at_100 f c = \<lparr>task_function = f, interval_ms = 100, enabled = True,
                       last_fire_tick = 100, last_cost_ms = c, drift_ms = 0\<rparr>"

section \<open>Facts about the model\<close>

subsection \<open>Chains\<close>

lemma chain_unique: "chain h p xs \<Longrightarrow> chain h p ys \<Longrightarrow> xs = ys"
proof (induction xs arbitrary: p ys)
  case Nil
  then show ?case by (cases ys) auto
next
  case (Cons x xs)
  obtain a t where x: "x = (a, t)" by (cases x)
  from Cons.prems x obtain y ys' where ys: "ys = y # ys'" by (cases ys) auto
  obtain b u where y: "y = (b, u)" by (cases y)
  from Cons.prems x ys y have "b = a" "u = t" "chain h (Next t) xs" "chain h (Next t) ys'"
    by auto
  with Cons.IH x ys y show ?case by blast
qed

lemma chain_suffix: "chain h p (xs @ ys) \<Longrightarrow> \<exists>q. chain h q ys"
  by (induction xs arbitrary: p) auto

lemma chain_head_fresh:
  assumes "chain h (Some a) ((a, t) # xs)"
  shows "a \<notin> fst ` set xs"
proof
  assume "a \<in> fst ` set xs"
  then obtain u where "(a, u) \<in> set xs" by auto
  then obtain us vs where xs: "xs = us @ (a, u) # vs" by (meson split_list)
  with assms have "chain h (Next t) (us @ (a, u) # vs)" by simp
  then obtain q where q: "chain h q ((a, u) # vs)" using chain_suffix by blast
  then have "q = Some a" by simp
  with q assms have "(a, u) # vs = (a, t) # xs" using chain_unique by blast
  with xs show False by auto
qed

lemma chain_free:
  "chain h p xs \<Longrightarrow> a \<notin> fst ` set xs \<Longrightarrow> chain (free h a) p xs"
  by (induction xs arbitrary: p) (auto simp: free_def)

lemma chain_distinct: "chain h p xs \<Longrightarrow> distinct (map fst xs)"
proof (induction xs arbitrary: p)
  case Nil
  then show ?case by simp
next
  case (Cons x xs)
  obtain a t where x: "x = (a, t)" by (cases x)
  from Cons.prems x have "chain h (Some a) ((a, t) # xs)" by simp
  then have "a \<notin> fst ` set xs" by (rule chain_head_fresh)
  moreover from Cons.prems x have "chain h (Next t) xs" by simp
  ultimately show ?case using Cons.IH x by simp
qed

subsection \<open>Traversal of a finite, acyclic sequence\<close>

lemma ManagerDelete_loop_chain:
  "chain h p xs \<Longrightarrow>
   ManagerDelete_loop h p = Some (Inr (\<lambda>b. if b \<in> fst ` set xs then None else h b))"
proof (induction xs arbitrary: h p)
  case Nil
  then show ?case by (subst ManagerDelete_loop.simps) simp
next
  case (Cons x xs)
  obtain a t where x: "x = (a, t)" by (cases x)
  from Cons.prems x have p: "p = Some a" and ha: "h a = Some t" and rest: "chain h (Next t) xs"
    by auto
  from Cons.prems x p have "a \<notin> fst ` set xs" using chain_head_fresh by blast
  with rest have "chain (free h a) (Next t) xs" by (rule chain_free)
  then have "ManagerDelete_loop (free h a) (Next t) =
      Some (Inr (\<lambda>b. if b \<in> fst ` set xs then None else free h a b))"
    by (rule Cons.IH)
  moreover have "(\<lambda>b. if b \<in> fst ` set xs then None else free h a b) =
      (\<lambda>b. if b \<in> fst ` set (x # xs) then None else h b)"
    using x by (auto simp: free_def fun_eq_iff)
  moreover have "ManagerDelete_loop h p = ManagerDelete_loop (free h a) (Next t)"
    using p ha by (subst ManagerDelete_loop.simps) simp
  ultimately show ?case by simp
qed

lemma TaskFind_loop_chain:
  "chain h p xs \<Longrightarrow>
   TaskFind_loop h p func = Some (Inr (map_option fst (find (\<lambda>x. Function (snd x) = func) xs)))"
proof (induction xs arbitrary: p)
  case Nil
  then show ?case by (subst TaskFind_loop.simps) simp
next
  case (Cons x xs)
  obtain a t where x: "x = (a, t)" by (cases x)
  from Cons.prems x have p: "p = Some a" and ha: "h a = Some t" and rest: "chain h (Next t) xs"
    by auto
  show ?case
  proof (cases "Function t = func")
    case True
    with p ha x show ?thesis by (subst TaskFind_loop.simps) simp
  next
    case False
    with p ha have "TaskFind_loop h p func = TaskFind_loop h (Next t) func"
      by (subst TaskFind_loop.simps) simp
    with Cons.IH [OF rest] False x show ?thesis by simp
  qed
qed

lemma GetPrev_loop_chain:
  "chain h p xs \<Longrightarrow> \<exists>q. GetPrev_loop h p prev task = Some (Inr q)"
proof (induction xs arbitrary: p prev)
  case Nil
  then show ?case by (subst GetPrev_loop.simps) simp
next
  case (Cons x xs)
  obtain a t where x: "x = (a, t)" by (cases x)
  from Cons.prems x have p: "p = Some a" and ha: "h a = Some t" and rest: "chain h (Next t) xs"
    by auto
  show ?case
  proof (cases "p = task")
    case True
    with p show ?thesis by (subst GetPrev_loop.simps) auto
  next
    case False
    with p ha have "GetPrev_loop h p prev task = GetPrev_loop h (Next t) p task"
      by (subst GetPrev_loop.simps) auto
    with Cons.IH [OF rest] show ?thesis by simp
  qed
qed

subsection \<open>Registration on a finite, acyclic sequence\<close>

lemma chain_mem: "chain h p xs \<Longrightarrow> (a, t) \<in> set xs \<Longrightarrow> h a = Some t"
  by (induction xs arbitrary: p) auto

lemma chain_upd_fields:
  "chain h p xs \<Longrightarrow> h a = Some t \<Longrightarrow> Next t' = Next t \<Longrightarrow>
   chain (h(a \<mapsto> t')) p (map (\<lambda>x. if fst x = a then (a, t') else x) xs)"
  by (induction xs arbitrary: p) auto

lemma find_Some_mem: "find P xs = Some y \<Longrightarrow> y \<in> set xs \<and> P y"
  by (induction xs) (auto split: if_splits)

lemma TaskFind_registered:
  assumes "chain h (Head TaskManager) xs" and "func \<in> Function ` snd ` set xs"
  shows "\<exists>a t. (a, t) \<in> set xs \<and> Function t = func \<and> h a = Some t \<and>
           TaskFind h TaskManager func = Some (Inr (Some a))"
proof -
  from assms(2) obtain x where "x \<in> set xs" "Function (snd x) = func"
    by auto
  then have "find (\<lambda>x. Function (snd x) = func) xs \<noteq> None"
    unfolding find_None_iff by blast
  then obtain y where "find (\<lambda>x. Function (snd x) = func) xs = Some y"
    by blast
  moreover obtain a t where "y = (a, t)" by (cases y)
  ultimately have f: "find (\<lambda>x. Function (snd x) = func) xs = Some (a, t)" by simp
  then have "(a, t) \<in> set xs" "Function t = func"
    using find_Some_mem [of "\<lambda>x. Function (snd x) = func" xs "(a, t)"] by simp_all
  moreover from this assms(1) have "h a = Some t" by (simp add: chain_mem)
  moreover from f have "TaskFind h TaskManager func = Some (Inr (Some a))"
    using TaskFind_loop_chain [OF assms(1), of func] by (simp add: TaskFind_def)
  ultimately show ?thesis by blast
qed

lemma TaskFind_unregistered:
  assumes "chain h (Head TaskManager) xs" and "func \<notin> Function ` snd ` set xs"
  shows "TaskFind h TaskManager func = Some (Inr None)"
proof -
  from assms(2) have "find (\<lambda>x. Function (snd x) = func) xs = None"
    by (force simp: find_None_iff)
  then show ?thesis
    using TaskFind_loop_chain [OF assms(1), of func] by (simp add: TaskFind_def)
qed

lemma TaskRegister_registered:
  assumes "chain h (Head TaskManager) xs" and "func \<in> Function ` snd ` set xs"
  shows "\<exists>a t. (a, t) \<in> set xs \<and> Function t = func \<and> h a = Some t \<and>
           TaskRegister h TaskManager func timeMs state malloc_result =
             Some (Inr (h(a \<mapsto> t\<lparr>Time := timeMs, State := state\<rparr>), Some a))"
proof -
  from TaskFind_registered [OF assms] obtain a t where
    "(a, t) \<in> set xs" "Function t = func" "h a = Some t"
    "TaskFind h TaskManager func = Some (Inr (Some a))"
    by blast
  then show ?thesis
    by (auto simp: TaskRegister_def TaskRegister_body_def)
qed

lemma chain_append_new:
  assumes "chain h p xs" and "xs \<noteq> []" and "a \<notin> dom h" and "Next new = None"
  shows "chain (h(a \<mapsto> new, fst (last xs) \<mapsto> snd (last xs)\<lparr>Next := Some a\<rparr>)) p
           (butlast xs @ [(fst (last xs), snd (last xs)\<lparr>Next := Some a\<rparr>), (a, new)])"
  using assms(1,2)
proof (induction xs arbitrary: p)
  case Nil
  then show ?case by simp
next
  case (Cons x xs)
  obtain b u where x: "x = (b, u)" by (cases x)
  from Cons.prems x have p: "p = Some b" and hb: "h b = Some u" and rest: "chain h (Next u) xs"
    by auto
  from hb assms(3) have ba: "b \<noteq> a" by auto
  show ?case
  proof (cases "xs = []")
    case True
    with rest have "Next u = None" by simp
    with True x p hb ba assms(4) show ?thesis by simp
  next
    case False
    from Cons.prems x p have "b \<notin> fst ` set xs" using chain_head_fresh by blast
    with False have bl: "b \<noteq> fst (last xs)" by (metis image_eqI last_in_set)
    from Cons.IH [OF rest False] False x p hb ba bl show ?thesis by simp
  qed
qed

lemma TaskRegister_body_new_empty:
  assumes "Head TaskManager = None"
  shows "TaskRegister_body h TaskManager func timeMs state (Some a) =
           Some (Inr (h(a \<mapsto> \<lparr>Function = func, Time = timeMs, State = state,
                               TimePrev = 0, TimeCost = 0, TimeError = 0, Next = None\<rparr>),
                      TaskManager\<lparr>Head := Some a, Tail := Some a\<rparr>, Some a))"
proof -
  have "TaskFind h TaskManager func = Some (Inr None)"
    using assms by (simp add: TaskFind_def TaskFind_loop.simps)
  with assms show ?thesis by (simp add: TaskRegister_body_def)
qed

lemma TaskRegister_body_new_nonempty:
  assumes "chain h (Head TaskManager) xs" and "xs \<noteq> []"
    and "Tail TaskManager = Some (fst (last xs))"
    and "func \<notin> Function ` snd ` set xs" and "a \<notin> dom h"
  shows "TaskRegister_body h TaskManager func timeMs state (Some a) =
           Some (Inr (h(a \<mapsto> \<lparr>Function = func, Time = timeMs, State = state,
                               TimePrev = 0, TimeCost = 0, TimeError = 0, Next = None\<rparr>,
                        fst (last xs) \<mapsto> snd (last xs)\<lparr>Next := Some a\<rparr>),
                      TaskManager\<lparr>Tail := Some a\<rparr>, Some a))"
proof -
  have find: "TaskFind h TaskManager func = Some (Inr None)"
    using assms(1,4) by (rule TaskFind_unregistered)
  from assms(2) have "(fst (last xs), snd (last xs)) \<in> set xs" by simp
  with assms(1) have l: "h (fst (last xs)) = Some (snd (last xs))" by (rule chain_mem)
  with assms(5) have ne: "fst (last xs) \<noteq> a" by auto
  from assms(1,2) obtain b where hd: "Head TaskManager = Some b" by (cases xs) auto
  from find hd assms(3) l ne show ?thesis
    by (simp add: TaskRegister_body_def)
qed

lemma find_last_only:
  assumes "\<forall>x \<in> set xs. \<not> P x" and "P y"
  shows "find P (xs @ [y]) = Some y"
  using assms by (induction xs) auto

section \<open>Properties\<close>

text \<open>
  C9. On a registry whose task sequence is finite and acyclic (the chain from \<open>Head\<close>
  reaches \<open>NULL\<close>), each \<^verbatim>\<open>while(1)\<close> loop of \<^verbatim>\<open>ManagerDelete\<close>, \<^verbatim>\<open>TaskFind\<close> and
  \<^verbatim>\<open>GetPrev\<close> terminates: each returns a value, and none of them reads a node that is
  not live. Each iteration moves one node along the chain; the proofs are by induction
  on the chain that remains.
\<close>

theorem traversals_terminate_on_chain:
  assumes "chain h (Head TaskManager) xs"
  shows "(\<exists>h'. ManagerDelete h TaskManager = Some (Inr h')) \<and>
         (\<exists>q. TaskFind h TaskManager func = Some (Inr q)) \<and>
         (\<exists>q. GetPrev h TaskManager task = Some (Inr q))"
  using ManagerDelete_loop_chain [OF assms] TaskFind_loop_chain [OF assms]
    GetPrev_loop_chain [OF assms]
  by (simp add: ManagerDelete_def TaskFind_def GetPrev_def)

theorem traversals_terminate_on_chain_witness:
  "chain heap_one (Head manager_one) [(1 :: addr, task_one)] \<and>
   (\<exists>h'. ManagerDelete heap_one manager_one = Some (Inr h')) \<and>
   (\<exists>q. TaskFind heap_one manager_one 7 = Some (Inr q)) \<and>
   (\<exists>q. GetPrev heap_one manager_one (Some 1) = Some (Inr q))"
proof -
  have c: "chain heap_one (Head manager_one) [(1 :: addr, task_one)]"
    by (simp add: heap_one_def manager_one_def task_one_def)
  from c traversals_terminate_on_chain [OF c, of 7 "Some 1"] show ?thesis by simp
qed

text \<open>
  C1. When the function is already registered in a registry with a finite, acyclic
  sequence, \<^verbatim>\<open>TaskRegister\<close> returns the handle of the existing node, whose \<open>Time\<close> and
  \<open>State\<close> are the new arguments and whose \<open>TimePrev\<close> and \<open>TimeError\<close> are as before;
  the sequence of the registry has the same length and the same function identities in
  the same order, so no second Task of that identity appears.
\<close>

theorem TaskRegister_existing_updates_in_place:
  assumes "chain h (Head TaskManager) xs" and "func \<in> Function ` snd ` set xs"
  shows "\<exists>a t h' t' xs'.
           (a, t) \<in> set xs \<and> Function t = func \<and>
           TaskRegister h TaskManager func timeMs state malloc_result = Some (Inr (h', Some a)) \<and>
           h' a = Some t' \<and> Time t' = timeMs \<and> State t' = state \<and>
           TimePrev t' = TimePrev t \<and> TimeError t' = TimeError t \<and>
           chain h' (Head TaskManager) xs' \<and> length xs' = length xs \<and>
           map (Function \<circ> snd) xs' = map (Function \<circ> snd) xs"
proof -
  from TaskRegister_registered [OF assms] obtain a t where
    mem: "(a, t) \<in> set xs" and f: "Function t = func" and ha: "h a = Some t" and
    reg: "TaskRegister h TaskManager func timeMs state malloc_result =
            Some (Inr (h(a \<mapsto> t\<lparr>Time := timeMs, State := state\<rparr>), Some a))"
    by blast
  let ?t' = "t\<lparr>Time := timeMs, State := state\<rparr>"
  let ?xs' = "map (\<lambda>x. if fst x = a then (a, ?t') else x) xs"
  have c: "chain (h(a \<mapsto> ?t')) (Head TaskManager) ?xs'"
    using assms(1) ha by (rule chain_upd_fields) simp
  have same: "map (Function \<circ> snd) ?xs' = map (Function \<circ> snd) xs"
  proof -
    have "Function (snd (if fst x = a then (a, ?t') else x)) = Function (snd x)"
      if "x \<in> set xs" for x
    proof (cases "fst x = a")
      case True
      with that have "(a, snd x) \<in> set xs" by (metis prod.collapse)
      with assms(1) have "h a = Some (snd x)" by (rule chain_mem)
      with ha True show ?thesis by simp
    next
      case False
      then show ?thesis by simp
    qed
    then show ?thesis by simp
  qed
  have "(h(a \<mapsto> ?t')) a = Some ?t'" by simp
  with mem f reg c same show ?thesis
    by (intro exI [of _ a] exI [of _ t] exI [of _ "h(a \<mapsto> ?t')"] exI [of _ ?t']
        exI [of _ ?xs']) simp
qed

theorem TaskRegister_existing_updates_in_place_witness:
  "chain heap_one (Head manager_one) [(1 :: addr, task_one)] \<and>
   7 \<in> Function ` snd ` set [(1 :: addr, task_one)] \<and>
   (\<exists>a t h' t' xs'.
      (a, t) \<in> set [(1 :: addr, task_one)] \<and> Function t = 7 \<and>
      TaskRegister heap_one manager_one 7 250 False None = Some (Inr (h', Some a)) \<and>
      h' a = Some t' \<and> Time t' = 250 \<and> State t' = False \<and>
      TimePrev t' = TimePrev t \<and> TimeError t' = TimeError t \<and>
      chain h' (Head manager_one) xs' \<and> length xs' = length [(1 :: addr, task_one)] \<and>
      map (Function \<circ> snd) xs' = map (Function \<circ> snd) [(1 :: addr, task_one)])"
proof -
  have c: "chain heap_one (Head manager_one) [(1 :: addr, task_one)]"
    by (simp add: heap_one_def manager_one_def task_one_def)
  have r: "7 \<in> Function ` snd ` set [(1 :: addr, task_one)]"
    by (simp add: task_one_def)
  from c r TaskRegister_existing_updates_in_place [OF c r, of 250 False None]
  show ?thesis by (intro conjI) assumption+
qed

text \<open>
  C10. When the function is already registered, \<^verbatim>\<open>TaskRegister\<close> writes only \<open>Time\<close> and
  \<open>State\<close> of the node it found: the memory afterwards is the old memory with that one
  node updated in these two fields, so its \<open>TimeCost\<close> and \<open>Next\<close> are as before, every
  other node is as before, and the sequence of the registry visits the same nodes in
  the same order.
\<close>

theorem TaskRegister_existing_frame:
  assumes "chain h (Head TaskManager) xs" and "func \<in> Function ` snd ` set xs"
  shows "\<exists>a t h'.
           (a, t) \<in> set xs \<and> Function t = func \<and>
           TaskRegister h TaskManager func timeMs state malloc_result = Some (Inr (h', Some a)) \<and>
           h' = h(a \<mapsto> t\<lparr>Time := timeMs, State := state\<rparr>) \<and>
           map_option TimeCost (h' a) = Some (TimeCost t) \<and>
           map_option Next (h' a) = Some (Next t) \<and>
           (\<forall>b. b \<noteq> a \<longrightarrow> h' b = h b) \<and>
           (\<exists>xs'. chain h' (Head TaskManager) xs' \<and> map fst xs' = map fst xs)"
proof -
  from TaskRegister_registered [OF assms] obtain a t where
    mem: "(a, t) \<in> set xs" and f: "Function t = func" and ha: "h a = Some t" and
    reg: "TaskRegister h TaskManager func timeMs state malloc_result =
            Some (Inr (h(a \<mapsto> t\<lparr>Time := timeMs, State := state\<rparr>), Some a))"
    by blast
  let ?t' = "t\<lparr>Time := timeMs, State := state\<rparr>"
  let ?xs' = "map (\<lambda>x. if fst x = a then (a, ?t') else x) xs"
  have c: "chain (h(a \<mapsto> ?t')) (Head TaskManager) ?xs'"
    using assms(1) ha by (rule chain_upd_fields) simp
  have "map fst ?xs' = map fst xs" by simp
  with c have "\<exists>xs'. chain (h(a \<mapsto> ?t')) (Head TaskManager) xs' \<and> map fst xs' = map fst xs"
    by blast
  with mem f reg show ?thesis
    by (intro exI [of _ a] exI [of _ t] exI [of _ "h(a \<mapsto> ?t')"]) simp
qed

theorem TaskRegister_existing_frame_witness:
  "chain heap_one (Head manager_one) [(1 :: addr, task_one)] \<and>
   7 \<in> Function ` snd ` set [(1 :: addr, task_one)] \<and>
   (\<exists>a t h'.
      (a, t) \<in> set [(1 :: addr, task_one)] \<and> Function t = 7 \<and>
      TaskRegister heap_one manager_one 7 250 False None = Some (Inr (h', Some a)) \<and>
      h' = heap_one(a \<mapsto> t\<lparr>Time := 250, State := False\<rparr>) \<and>
      map_option TimeCost (h' a) = Some (TimeCost t) \<and>
      map_option Next (h' a) = Some (Next t) \<and>
      (\<forall>b. b \<noteq> a \<longrightarrow> h' b = heap_one b) \<and>
      (\<exists>xs'. chain h' (Head manager_one) xs' \<and> map fst xs' = map fst [(1 :: addr, task_one)]))"
proof -
  have c: "chain heap_one (Head manager_one) [(1 :: addr, task_one)]"
    by (simp add: heap_one_def manager_one_def task_one_def)
  have r: "7 \<in> Function ` snd ` set [(1 :: addr, task_one)]"
    by (simp add: task_one_def)
  from c r TaskRegister_existing_frame [OF c r, of 250 False None]
  show ?thesis by (intro conjI) assumption+
qed

text \<open>
  C7. When the function is not registered and \<^verbatim>\<open>malloc\<close> returns \<open>NULL\<close>,
  \<^verbatim>\<open>TaskRegister\<close> returns \<open>NULL\<close> (the out-of-memory result: no handle) and the
  memory, hence the registry, is as before.
\<close>

theorem TaskRegister_out_of_memory:
  assumes "chain h (Head TaskManager) xs" and "func \<notin> Function ` snd ` set xs"
  shows "TaskRegister h TaskManager func timeMs state None = Some (Inr (h, None))"
  using TaskFind_unregistered [OF assms]
  by (simp add: TaskRegister_def TaskRegister_body_def)

theorem TaskRegister_out_of_memory_witness:
  "chain heap_one (Head manager_one) [(1 :: addr, task_one)] \<and>
   8 \<notin> Function ` snd ` set [(1 :: addr, task_one)] \<and>
   TaskRegister heap_one manager_one 8 250 True None = Some (Inr (heap_one, None))"
proof -
  have c: "chain heap_one (Head manager_one) [(1 :: addr, task_one)]"
    by (simp add: heap_one_def manager_one_def task_one_def)
  have r: "8 \<notin> Function ` snd ` set [(1 :: addr, task_one)]"
    by (simp add: task_one_def)
  from c r TaskRegister_out_of_memory [OF c r, of 250 True]
  show ?thesis by (intro conjI) assumption+
qed

text \<open>
  C3 (as stated, refuted). The claim says that teardown of a non-empty registry reads the
  successor link of a node it has already freed. On the one-node registry the source's
  loop ends without a fault and with every node freed: it reads \<^verbatim>\<open>now->Next\<close> before
  \<^verbatim>\<open>free(now_del)\<close>. The order the claim describes, run on the same registry, faults.
\<close>

theorem ManagerDelete_use_after_free_counterexample:
  "Head manager_one = Some 1 \<and> heap_one 1 = Some task_one \<and>
   ManagerDelete heap_one manager_one = Some (Inr Map.empty) \<and>
   teardown_release_then_read heap_one (Head manager_one) = Some (Inl InvalidAccess)"
  by (simp add: ManagerDelete_def ManagerDelete_loop.simps teardown_release_then_read.simps
      heap_one_def manager_one_def task_one_def free_def)

text \<open>
  C3 (amended). On every registry whose sequence is finite and acyclic, \<^verbatim>\<open>ManagerDelete\<close>
  reads the successor link of each node while the node is still live and frees the node
  afterwards: the traversal ends without reading a freed node, every node of the
  sequence is freed, and no other memory is touched.
\<close>

theorem ManagerDelete_frees_sequence_without_fault:
  assumes "chain h (Head TaskManager) xs"
  shows "ManagerDelete h TaskManager =
           Some (Inr (\<lambda>b. if b \<in> fst ` set xs then None else h b))"
  using ManagerDelete_loop_chain [OF assms] by (simp add: ManagerDelete_def)

theorem ManagerDelete_frees_sequence_without_fault_witness:
  "chain heap_one (Head manager_one) [(1 :: addr, task_one)] \<and>
   ManagerDelete heap_one manager_one =
     Some (Inr (\<lambda>b. if b \<in> fst ` set [(1 :: addr, task_one)] then None else heap_one b))"
proof -
  have c: "chain heap_one (Head manager_one) [(1 :: addr, task_one)]"
    by (simp add: heap_one_def manager_one_def task_one_def)
  from c ManagerDelete_frees_sequence_without_fault [OF c]
  show ?thesis by (intro conjI) assumption+
qed

text \<open>
  C2 (as stated, refuted). \<^verbatim>\<open>TaskRegister\<close> with \<open>timeMs = 0\<close> does not fail. For the
  registered function 7 it returns the handle of the node and sets its \<open>Time\<close> from 100
  to 0; for the new function 8 it creates a node with \<open>Time = 0\<close>, links it behind node 1
  and returns its handle.
\<close>

theorem TaskRegister_zero_interval_counterexample:
  "map_option Time (heap_one 1) = Some 100 \<and>
   TaskRegister heap_one manager_one 7 0 True None =
     Some (Inr ([1 \<mapsto> task_one\<lparr>Time := 0\<rparr>], Some 1)) \<and>
   TaskRegister heap_one manager_one 8 0 True (Some 2) =
     Some (Inr ([2 \<mapsto> task_two\<lparr>Time := 0\<rparr>, 1 \<mapsto> task_one\<lparr>Next := Some 2\<rparr>], Some 2))"
  by (simp add: TaskRegister_def TaskRegister_body_def TaskFind_def TaskFind_loop.simps
      heap_one_def manager_one_def task_one_def task_two_def)

text \<open>
  C2 (amended). \<^verbatim>\<open>TaskRegister\<close> does not validate the interval: \<open>timeMs\<close> is an unsigned
  32-bit value, so a negative interval cannot be passed, and \<open>timeMs = 0\<close> is accepted
  like any other value. On a registry with a finite, acyclic sequence: for a registered
  function the call returns the handle of a node of the sequence that holds this
  function, and the memory afterwards is the old memory with \<open>Time\<close> of that node set to
  0 (and \<open>State\<close> to the argument), the sequence visiting the same nodes; for a function
  that is not registered, when \<^verbatim>\<open>malloc\<close> returns a fresh node (and \<open>Tail\<close> is the last
  node of a non-empty sequence), the call returns the handle of the new node, which
  holds this function with \<open>Time = 0\<close>.
\<close>

theorem TaskRegister_zero_interval_accepted:
  assumes "chain h (Head TaskManager) xs"
  shows "(func \<in> Function ` snd ` set xs \<longrightarrow>
            (\<exists>a t h' xs'. (a, t) \<in> set xs \<and> Function t = func \<and>
                         TaskRegister h TaskManager func 0 state malloc_result =
                           Some (Inr (h', Some a)) \<and>
                         h' = h(a \<mapsto> t\<lparr>Time := 0, State := state\<rparr>) \<and>
                         h a \<noteq> None \<and> map_option Time (h' a) = Some 0 \<and>
                         chain h' (Head TaskManager) xs' \<and> length xs' = length xs \<and>
                         map fst xs' = map fst xs)) \<and>
         (func \<notin> Function ` snd ` set xs \<and> a \<notin> dom h \<and>
          (xs = [] \<or> Tail TaskManager = Some (fst (last xs))) \<longrightarrow>
            (\<exists>h'. TaskRegister h TaskManager func 0 state (Some a) = Some (Inr (h', Some a)) \<and>
                   h' a = Some \<lparr>Function = func, Time = 0, State = state,
                                TimePrev = 0, TimeCost = 0, TimeError = 0, Next = None\<rparr> \<and>
                   map_option Time (h' a) = Some 0))"
proof (intro conjI impI)
  assume r: "func \<in> Function ` snd ` set xs"
  from TaskRegister_registered [OF assms r] obtain a t where
    mem: "(a, t) \<in> set xs" and f: "Function t = func" and ha: "h a = Some t" and
    reg: "TaskRegister h TaskManager func 0 state malloc_result =
            Some (Inr (h(a \<mapsto> t\<lparr>Time := 0, State := state\<rparr>), Some a))"
    by blast
  let ?t' = "t\<lparr>Time := 0, State := state\<rparr>"
  let ?xs' = "map (\<lambda>x. if fst x = a then (a, ?t') else x) xs"
  have c: "chain (h(a \<mapsto> ?t')) (Head TaskManager) ?xs'"
    using assms ha by (rule chain_upd_fields) simp
  have "map fst ?xs' = map fst xs" by simp
  with c mem f reg ha
  show "\<exists>a t h' xs'. (a, t) \<in> set xs \<and> Function t = func \<and>
                         TaskRegister h TaskManager func 0 state malloc_result =
                           Some (Inr (h', Some a)) \<and>
                         h' = h(a \<mapsto> t\<lparr>Time := 0, State := state\<rparr>) \<and>
                         h a \<noteq> None \<and> map_option Time (h' a) = Some 0 \<and>
                         chain h' (Head TaskManager) xs' \<and> length xs' = length xs \<and>
                         map fst xs' = map fst xs"
    by (intro exI [of _ a] exI [of _ t] exI [of _ "h(a \<mapsto> ?t')"] exI [of _ ?xs']) simp
next
  assume n: "func \<notin> Function ` snd ` set xs \<and> a \<notin> dom h \<and>
             (xs = [] \<or> Tail TaskManager = Some (fst (last xs)))"
  let ?new = "\<lparr>Function = func, Time = 0, State = state,
               TimePrev = 0, TimeCost = 0, TimeError = 0, Next = None\<rparr>"
  show "\<exists>h'. TaskRegister h TaskManager func 0 state (Some a) = Some (Inr (h', Some a)) \<and>
             h' a = Some ?new \<and> map_option Time (h' a) = Some 0"
  proof (cases "xs = []")
    case True
    with assms have "Head TaskManager = None" by simp
    from TaskRegister_body_new_empty [OF this, of h func 0 state a]
    show ?thesis by (simp add: TaskRegister_def)
  next
    case False
    with n have tl: "Tail TaskManager = Some (fst (last xs))" and f: "func \<notin> Function ` snd ` set xs"
      and a: "a \<notin> dom h" by auto
    from False have "(fst (last xs), snd (last xs)) \<in> set xs" by simp
    with assms have "h (fst (last xs)) = Some (snd (last xs))" by (rule chain_mem)
    with a have "fst (last xs) \<noteq> a" by auto
    with TaskRegister_body_new_nonempty [OF assms False tl f a, of 0 state]
    show ?thesis by (simp add: TaskRegister_def)
  qed
qed

theorem TaskRegister_zero_interval_accepted_witness:
  "chain heap_one (Head manager_one) [(1 :: addr, task_one)] \<and>
   7 \<in> Function ` snd ` set [(1 :: addr, task_one)] \<and>
   (\<exists>a t h' xs'. (a, t) \<in> set [(1 :: addr, task_one)] \<and> Function t = 7 \<and>
                TaskRegister heap_one manager_one 7 0 True None = Some (Inr (h', Some a)) \<and>
                h' = heap_one(a \<mapsto> t\<lparr>Time := 0, State := True\<rparr>) \<and>
                heap_one a \<noteq> None \<and> map_option Time (h' a) = Some 0 \<and>
                chain h' (Head manager_one) xs' \<and>
                length xs' = length [(1 :: addr, task_one)] \<and>
                map fst xs' = map fst [(1 :: addr, task_one)]) \<and>
   8 \<notin> Function ` snd ` set [(1 :: addr, task_one)] \<and> 2 \<notin> dom heap_one \<and>
   Tail manager_one = Some (fst (last [(1 :: addr, task_one)])) \<and>
   (\<exists>h'. TaskRegister heap_one manager_one 8 0 True (Some 2) = Some (Inr (h', Some 2)) \<and>
          h' 2 = Some \<lparr>Function = 8, Time = 0, State = True,
                        TimePrev = 0, TimeCost = 0, TimeError = 0, Next = None\<rparr> \<and>
          map_option Time (h' 2) = Some 0)"
proof -
  have c: "chain heap_one (Head manager_one) [(1 :: addr, task_one)]"
    by (simp add: heap_one_def manager_one_def task_one_def)
  have r: "7 \<in> Function ` snd ` set [(1 :: addr, task_one)]"
    by (simp add: task_one_def)
  have n: "8 \<notin> Function ` snd ` set [(1 :: addr, task_one)]" "2 \<notin> dom heap_one"
    "Tail manager_one = Some (fst (last [(1 :: addr, task_one)]))"
    by (simp_all add: task_one_def heap_one_def manager_one_def)
  from TaskRegister_zero_interval_accepted [OF c, of 7 True None] r
  have 1: "\<exists>a t h' xs'. (a, t) \<in> set [(1 :: addr, task_one)] \<and> Function t = 7 \<and>
                TaskRegister heap_one manager_one 7 0 True None = Some (Inr (h', Some a)) \<and>
                h' = heap_one(a \<mapsto> t\<lparr>Time := 0, State := True\<rparr>) \<and>
                heap_one a \<noteq> None \<and> map_option Time (h' a) = Some 0 \<and>
                chain h' (Head manager_one) xs' \<and>
                length xs' = length [(1 :: addr, task_one)] \<and>
                map fst xs' = map fst [(1 :: addr, task_one)]"
    by blast
  from TaskRegister_zero_interval_accepted [OF c, of 8 True None 2] n
  have 2: "\<exists>h'. TaskRegister heap_one manager_one 8 0 True (Some 2) = Some (Inr (h', Some 2)) \<and>
          h' 2 = Some \<lparr>Function = 8, Time = 0, State = True,
                        TimePrev = 0, TimeCost = 0, TimeError = 0, Next = None\<rparr> \<and>
          map_option Time (h' 2) = Some 0"
    by blast
  from c r n 1 2 show ?thesis by (intro conjI) assumption+
qed

text \<open>
  C5 (as stated, refuted). The registry \<open>manager_one\<close> has one node (function 7) and
  function 8 is not registered. After \<^verbatim>\<open>TaskRegister\<close> for function 8 the caller's
  \<open>manager_one\<close> is the same value, yet \<^verbatim>\<open>TaskFind\<close> on it returns the new node 2 and the
  chain from its \<open>Head\<close> reaches node 2: the body wrote \<^verbatim>\<open>TaskManager.Tail->Next\<close>
  through the pointer, into the memory it shares with the caller.
\<close>

theorem TaskRegister_by_value_counterexample:
  "chain heap_one (Head manager_one) [(1, task_one)] \<and>
   TaskFind heap_one manager_one 8 = Some (Inr None) \<and>
   TaskRegister heap_one manager_one 8 50 True (Some 2) = Some (Inr (heap_two, Some 2)) \<and>
   TaskFind heap_two manager_one 8 = Some (Inr (Some 2)) \<and>
   chain heap_two (Head manager_one) [(1, task_one\<lparr>Next := Some 2\<rparr>), (2, task_two)]"
  by (simp add: TaskRegister_def TaskRegister_body_def TaskFind_def TaskFind_loop.simps
      heap_one_def heap_two_def manager_one_def task_one_def task_two_def)

text \<open>
  C5 (amended). \<^verbatim>\<open>TaskRegister\<close> receives the registry by value: the new \<open>Head\<close> and
  \<open>Tail\<close> are written to the body's own copy and the caller's registry value is the
  same after the call. For a function that is not registered and a fresh node from
  \<^verbatim>\<open>malloc\<close>: when the caller's registry is empty (\<open>Head\<close> is \<open>NULL\<close>), the new node is
  not reachable from it and \<^verbatim>\<open>TaskFind\<close> on it returns not-found; when its sequence is
  not empty and \<open>Tail\<close> is its last node, the new node is linked behind that node in
  the shared memory, so the sequence from the caller's \<open>Head\<close> ends with the new node
  and \<^verbatim>\<open>TaskFind\<close> returns it, while the caller's \<open>Tail\<close> still names the old last node.
\<close>

theorem TaskRegister_by_value_effect:
  assumes "chain h (Head TaskManager) xs" and "func \<notin> Function ` snd ` set xs"
    and "a \<notin> dom h" and "xs = [] \<or> Tail TaskManager = Some (fst (last xs))"
  shows "\<exists>h' local_copy new.
           TaskRegister_body h TaskManager func timeMs state (Some a) =
             Some (Inr (h', local_copy, Some a)) \<and>
           TaskRegister h TaskManager func timeMs state (Some a) = Some (Inr (h', Some a)) \<and>
           local_copy = TaskManager\<lparr>Head := (if xs = [] then Some a else Head TaskManager),
                                    Tail := Some a\<rparr> \<and>
           h' a = Some new \<and>
           (if xs = []
            then chain h' (Head TaskManager) [] \<and>
                 TaskFind h' TaskManager func = Some (Inr None)
            else chain h' (Head TaskManager)
                   (butlast xs @ [(fst (last xs), snd (last xs)\<lparr>Next := Some a\<rparr>), (a, new)]) \<and>
                 TaskFind h' TaskManager func = Some (Inr (Some a)) \<and>
                 Tail TaskManager \<noteq> Some a)"
proof (cases "xs = []")
  case True
  let ?new = "\<lparr>Function = func, Time = timeMs, State = state,
               TimePrev = 0, TimeCost = 0, TimeError = 0, Next = None\<rparr>"
  from True assms(1) have hd: "Head TaskManager = None" by simp
  have body: "TaskRegister_body h TaskManager func timeMs state (Some a) =
      Some (Inr (h(a \<mapsto> ?new), TaskManager\<lparr>Head := Some a, Tail := Some a\<rparr>, Some a))"
    using hd by (rule TaskRegister_body_new_empty)
  have "TaskFind (h(a \<mapsto> ?new)) TaskManager func = Some (Inr None)"
    using hd by (simp add: TaskFind_def TaskFind_loop.simps)
  with body hd True show ?thesis
    by (intro exI [of _ "h(a \<mapsto> ?new)"]
        exI [of _ "TaskManager\<lparr>Head := Some a, Tail := Some a\<rparr>"] exI [of _ ?new])
      (simp add: TaskRegister_def)
next
  case False
  let ?new = "\<lparr>Function = func, Time = timeMs, State = state,
               TimePrev = 0, TimeCost = 0, TimeError = 0, Next = None\<rparr>"
  let ?l = "fst (last xs)"
  let ?tl = "snd (last xs)\<lparr>Next := Some a\<rparr>"
  let ?h' = "h(a \<mapsto> ?new, ?l \<mapsto> ?tl)"
  let ?xs' = "butlast xs @ [(?l, ?tl), (a, ?new)]"
  from False assms(4) have tl: "Tail TaskManager = Some ?l" by simp
  have body: "TaskRegister_body h TaskManager func timeMs state (Some a) =
      Some (Inr (?h', TaskManager\<lparr>Tail := Some a\<rparr>, Some a))"
    using assms(1) False tl assms(2,3) by (rule TaskRegister_body_new_nonempty)
  from False have lastmem: "(?l, snd (last xs)) \<in> set xs" by simp
  with assms(1) have "h ?l = Some (snd (last xs))" by (rule chain_mem)
  with assms(3) have ne: "?l \<noteq> a" by auto
  have c: "chain ?h' (Head TaskManager) ?xs'"
    using assms(1) False assms(3) by (rule chain_append_new) simp
  have "\<forall>x \<in> set (butlast xs @ [(?l, ?tl)]). \<not> Function (snd x) = func"
  proof
    fix x assume "x \<in> set (butlast xs @ [(?l, ?tl)])"
    then consider "x \<in> set (butlast xs)" | "x = (?l, ?tl)" by auto
    then show "\<not> Function (snd x) = func"
    proof cases
      case 1
      then have "x \<in> set xs" by (rule in_set_butlastD)
      with assms(2) show ?thesis by auto
    next
      case 2
      with lastmem assms(2) show ?thesis by force
    qed
  qed
  then have "find (\<lambda>x. Function (snd x) = func) ((butlast xs @ [(?l, ?tl)]) @ [(a, ?new)]) =
      Some (a, ?new)"
    by (rule find_last_only) simp
  then have "TaskFind ?h' TaskManager func = Some (Inr (Some a))"
    using TaskFind_loop_chain [OF c, of func] by (simp add: TaskFind_def)
  with body c False tl ne show ?thesis
    by (intro exI [of _ ?h'] exI [of _ "TaskManager\<lparr>Tail := Some a\<rparr>"] exI [of _ ?new])
      (simp add: TaskRegister_def)
qed

theorem TaskRegister_by_value_effect_witness:
  "chain Map.empty (Head (ManagerCreate manager_one False)) [] \<and>
   7 \<notin> Function ` snd ` set ([] :: (addr \<times> Task_t) list) \<and>
   (1 :: addr) \<notin> dom (Map.empty :: heap) \<and>
   (\<exists>h' local_copy new.
      TaskRegister_body Map.empty (ManagerCreate manager_one False) 7 100 True (Some 1) =
        Some (Inr (h', local_copy, Some 1)) \<and>
      TaskRegister Map.empty (ManagerCreate manager_one False) 7 100 True (Some 1) =
        Some (Inr (h', Some 1)) \<and>
      local_copy = (ManagerCreate manager_one False)\<lparr>Head := Some 1, Tail := Some 1\<rparr> \<and>
      h' 1 = Some new \<and>
      chain h' (Head (ManagerCreate manager_one False)) [] \<and>
      TaskFind h' (ManagerCreate manager_one False) 7 = Some (Inr None)) \<and>
   chain heap_one (Head manager_one) [(1, task_one)] \<and>
   8 \<notin> Function ` snd ` set [(1 :: addr, task_one)] \<and>
   2 \<notin> dom heap_one \<and>
   Tail manager_one = Some (fst (last [(1 :: addr, task_one)])) \<and>
   (\<exists>h' local_copy new.
      TaskRegister_body heap_one manager_one 8 50 True (Some 2) =
        Some (Inr (h', local_copy, Some 2)) \<and>
      TaskRegister heap_one manager_one 8 50 True (Some 2) = Some (Inr (h', Some 2)) \<and>
      local_copy = manager_one\<lparr>Tail := Some 2\<rparr> \<and>
      h' 2 = Some new \<and>
      chain h' (Head manager_one) [(1, task_one\<lparr>Next := Some 2\<rparr>), (2, new)] \<and>
      TaskFind h' manager_one 8 = Some (Inr (Some 2)) \<and>
      Tail manager_one \<noteq> Some 2)"
proof -
  have c: "chain Map.empty (Head (ManagerCreate manager_one False)) []"
    by (simp add: ManagerCreate_def)
  have n: "7 \<notin> Function ` snd ` set ([] :: (addr \<times> Task_t) list)" by simp
  have a: "(1 :: addr) \<notin> dom (Map.empty :: heap)" by simp
  have t: "([] :: (addr \<times> Task_t) list) = [] \<or>
           Tail (ManagerCreate manager_one False) = Some (fst (last []))" by simp
  from TaskRegister_by_value_effect [OF c n a t, of 100 True]
  have 1: "\<exists>h' local_copy new.
      TaskRegister_body Map.empty (ManagerCreate manager_one False) 7 100 True (Some 1) =
        Some (Inr (h', local_copy, Some 1)) \<and>
      TaskRegister Map.empty (ManagerCreate manager_one False) 7 100 True (Some 1) =
        Some (Inr (h', Some 1)) \<and>
      local_copy = (ManagerCreate manager_one False)\<lparr>Head := Some 1, Tail := Some 1\<rparr> \<and>
      h' 1 = Some new \<and>
      chain h' (Head (ManagerCreate manager_one False)) [] \<and>
      TaskFind h' (ManagerCreate manager_one False) 7 = Some (Inr None)"
    by simp
  have c': "chain heap_one (Head manager_one) [(1, task_one)]"
    by (simp add: heap_one_def manager_one_def task_one_def)
  have n': "8 \<notin> Function ` snd ` set [(1 :: addr, task_one)]"
    by (simp add: task_one_def)
  have a': "2 \<notin> dom heap_one" by (simp add: heap_one_def)
  have t': "Tail manager_one = Some (fst (last [(1 :: addr, task_one)]))"
    by (simp add: manager_one_def)
  from t' have t'': "[(1 :: addr, task_one)] = [] \<or>
      Tail manager_one = Some (fst (last [(1 :: addr, task_one)]))" by simp
  from TaskRegister_by_value_effect [OF c' n' a' t'', of 50 True]
  have 2: "\<exists>h' local_copy new.
      TaskRegister_body heap_one manager_one 8 50 True (Some 2) =
        Some (Inr (h', local_copy, Some 2)) \<and>
      TaskRegister heap_one manager_one 8 50 True (Some 2) = Some (Inr (h', Some 2)) \<and>
      local_copy = manager_one\<lparr>Tail := Some 2\<rparr> \<and>
      h' 2 = Some new \<and>
      chain h' (Head manager_one) [(1, task_one\<lparr>Next := Some 2\<rparr>), (2, new)] \<and>
      TaskFind h' manager_one 8 = Some (Inr (Some 2)) \<and>
      Tail manager_one \<noteq> Some 2"
    by simp
  from c n a 1 c' n' a' t' 2 show ?thesis by (intro conjI) assumption+
qed

text \<open>
  C8 (evaluation at the failing input). \<^verbatim>\<open>TaskRegister\<close> on the registry that
  \<^verbatim>\<open>ManagerCreate\<close> returns: the node is allocated with the fields the claim lists and
  its handle is returned, and the body's copy of the manager has it as \<open>Head\<close> and
  \<open>Tail\<close>; but the registry the caller holds still has \<open>Head = NULL\<close>, its sequence is
  still empty and \<^verbatim>\<open>TaskFind\<close> on it does not find the function.
\<close>

theorem TaskRegister_on_created_registry_not_appended:
  "TaskRegister Map.empty (ManagerCreate manager_one False) 7 100 True (Some 1) =
     Some (Inr ([1 \<mapsto> \<lparr>Function = 7, Time = 100, State = True,
                        TimePrev = 0, TimeCost = 0, TimeError = 0, Next = None\<rparr>], Some 1)) \<and>
   TaskRegister_body Map.empty (ManagerCreate manager_one False) 7 100 True (Some 1) =
     Some (Inr (heap_one, \<lparr>PriorityEnable = False, Head = Some 1, Tail = Some 1\<rparr>, Some 1)) \<and>
   Head (ManagerCreate manager_one False) = None \<and>
   chain heap_one (Head (ManagerCreate manager_one False)) [] \<and>
   TaskFind heap_one (ManagerCreate manager_one False) 7 = Some (Inr None)"
  by (simp add: TaskRegister_def TaskRegister_body_def TaskFind_def TaskFind_loop.simps
      ManagerCreate_def heap_one_def manager_one_def task_one_def)

text \<open>
  C6 (evaluation at the failing input). \<^verbatim>\<open>TaskLogout\<close> has an empty body: on the
  registry whose one node holds function 7 it leaves the memory as it is and returns no
  value, and \<^verbatim>\<open>TaskFind\<close> for function 7 still returns node 1 afterwards.
\<close>

theorem TaskLogout_leaves_task_registered:
  "TaskFind heap_one manager_one 7 = Some (Inr (Some 1)) \<and>
   TaskLogout heap_one 7 = (heap_one, None) \<and>
   TaskFind (fst (TaskLogout heap_one 7)) manager_one 7 = Some (Inr (Some 1))"
  by (simp add: TaskLogout_def TaskFind_def TaskFind_loop.simps
      heap_one_def manager_one_def task_one_def)

text \<open>
  C4. One invocation of the dispatcher at \<open>now_tick\<close> invokes exactly the tasks that are
  enabled and have \<open>(now_tick - last_fire_tick) + drift_ms \<ge> interval_ms\<close>, in sequence
  order. For the task that \<^verbatim>\<open>TaskRegister\<close> creates with interval 100, enabled: a run at
  tick 0 and a run at tick 50 invoke nothing and change nothing; a run at tick 100
  invokes it once and leaves it with \<open>last_fire_tick = 100\<close> and no drift; a second run at
  tick 100 invokes nothing; from then on a run invokes it exactly when the tick has
  reached 200.
\<close>

theorem run_fires_exactly_when_due:
  "snd (run cost ts now_tick) =
     map task_function
       (filter (\<lambda>t. enabled t \<and> (now_tick - last_fire_tick t) + drift_ms t \<ge> interval_ms t) ts) \<and>
   TaskRegister Map.empty (ManagerCreate TaskManager priorityEnable) f 100 True (Some a) =
     Some (Inr ([a \<mapsto> node_100 f], Some a)) \<and>
   run cost [Task_of (node_100 f)] 0 = ([Task_of (node_100 f)], []) \<and>
   run cost [Task_of (node_100 f)] 50 = ([Task_of (node_100 f)], []) \<and>
   run cost [Task_of (node_100 f)] 100 = ([fired_at_100 f (cost f 100)], [f]) \<and>
   run cost [fired_at_100 f c] 100 = ([fired_at_100 f c], []) \<and>
   snd (run cost [fired_at_100 f c] tick) = (if tick \<ge> 200 then [f] else [])"
proof -
  have general: "snd (run cost ts now_tick) =
     map task_function
       (filter (\<lambda>t. enabled t \<and> (now_tick - last_fire_tick t) + drift_ms t \<ge> interval_ms t) ts)"
    by (induction ts) (auto simp: due_def Let_def split: prod.splits)
  have reg: "TaskRegister Map.empty (ManagerCreate TaskManager priorityEnable) f 100 True (Some a) =
     Some (Inr ([a \<mapsto> node_100 f], Some a))"
    by (simp add: TaskRegister_def TaskRegister_body_def TaskFind_def TaskFind_loop.simps
        ManagerCreate_def node_100_def)
  have r0: "run cost [Task_of (node_100 f)] 0 = ([Task_of (node_100 f)], [])"
    by (simp add: Task_of_def node_100_def due_def)
  have r50: "run cost [Task_of (node_100 f)] 50 = ([Task_of (node_100 f)], [])"
    by (simp add: Task_of_def node_100_def due_def)
  have r100: "run cost [Task_of (node_100 f)] 100 = ([fired_at_100 f (cost f 100)], [f])"
    by (simp add: Task_of_def node_100_def due_def fire_def clamp_def fired_at_100_def)
  have again: "run cost [fired_at_100 f c] 100 = ([fired_at_100 f c], [])"
    by (simp add: due_def fired_at_100_def)
  have later: "snd (run cost [fired_at_100 f c] tick) = (if tick \<ge> 200 then [f] else [])"
    by (simp add: due_def fired_at_100_def)
  from general reg r0 r50 r100 again later show ?thesis by (intro conjI) assumption+
qed

end
